theory Spec2Isabelle
  imports Main
begin

section \<open>The data object: callbacks, route guard, fetch queue, load\<close>

text \<open>
  The second half of thorax.loading.js (lines 137 to 295) works on one model or
  collection (\<open>this\<close>). Its JavaScript closures are written here as the terms of a
  datatype, each constructor holding what the closure captured, and \<open>invoke\<close> is
  their body. Functions supplied by the caller are opaque but for one thing: the
  trace records that function number \<open>k\<close> was called, and with which arguments,
  and such a function may fetch on the object in its body. A call into the
  surrounding framework (the inherited fetch, \<open>abort\<close>, \<open>trigger\<close>) is likewise
  recorded in the trace of the world and has no further effect.
\<close>

datatype arg = Self | Bool bool | Val nat

text \<open>The truth value JavaScript gives to the first argument of a call
  (\<open>undefined\<close> when there is none; the number 0 is falsy).\<close>

fun truthy :: "arg list \<Rightarrow> bool" where
  "truthy [] = False"
| "truthy (Self # _) = True"
| "truthy (Bool b # _) = b"
| "truthy (Val n # _) = (n \<noteq> 0)"

datatype callback =
    User nat
  | UserFetch nat "nat option"
  | BindFailback callback bool
  | LoadFailback "callback option"
  | BindFinalizer nat bool string callback "callback option"
  | FetchComplete "callback option"

text \<open>
  \<^item> \<open>User k\<close> is a function of the caller that does not touch the object;
    \<open>UserFetch k a\<close> is a function of the caller whose body calls \<open>this.fetch\<close> on
    the object, with the options object \<open>a\<close> (\<open>None\<close>: without options);
  \<^item> \<open>BindFailback f e\<close> is \<open>_.bind(failback, this, e)\<close> of loadData (lines 200, 201);
  \<^item> \<open>LoadFailback f\<close> is the \<open>function(isError)\<close> of load (lines 281 to 291),
    \<open>f\<close> the caller's failback when it is a function;
  \<^item> \<open>BindFinalizer g c fragment callback failback\<close> is \<open>_.bind(finalizer, this, c)\<close>
    of the guard numbered \<open>g\<close> (lines 183, 186), with the variables the finalizer
    closes over; its \<open>completed\<close> variable is mutable and lives in the world;
  \<^item> \<open>FetchComplete c\<close> is the \<open>options.complete\<close> that fetch installs
    (lines 258 to 261), \<open>c\<close> the value the property had before.
\<close>

datatype handler = Success | Error | Complete

record options =
  success :: "callback option"
  error :: "callback option"
  complete :: "callback option"
  resetQueue :: bool
  backgroundOpt :: bool

definition emptyOptions :: options where
  "emptyOptions = \<lparr>success = None, error = None, complete = None,
     resetQueue = False, backgroundOpt = False\<rparr>"

fun field :: "handler \<Rightarrow> options \<Rightarrow> callback option" where
  "field Success opts = success opts"
| "field Error opts = error opts"
| "field Complete opts = complete opts"

datatype event =
    Called nat "arg list"
  | TriggerLoadStart bool
  | ForwardLoadStart bool
  | TriggerLoadEnd
  | SuperFetch nat
  | Abort nat
  | TriggerRequest nat

text \<open>
  \<open>Called k args\<close>: the caller's function \<open>k\<close> ran with \<open>args\<close>.
  \<open>TriggerLoadStart b\<close>: \<open>this.trigger('load:start', undefined, b, this)\<close>.
  \<open>ForwardLoadStart b\<close>: a forwarder of forwardLoadEvents re-triggered it on \<open>exports\<close>.
  \<open>TriggerLoadEnd\<close>: \<open>this.trigger('load:end', this)\<close>.
  \<open>SuperFetch q\<close>: the inherited fetch was called with the three flushQueue closures
  over the queue array \<open>q\<close>. \<open>Abort h\<close>: \<open>abort()\<close> was called on request handle \<open>h\<close>.
\<close>

record world =
  isPopulated :: bool
  this_fetchQueue :: "nat option"
  arrays :: "nat \<Rightarrow> nat list"
  nextArray :: nat
  objects :: "nat \<Rightarrow> options"
  nextObject :: nat
  this_request :: "nat option"
  this_aborted :: bool
  completed :: "nat \<Rightarrow> bool"
  nextGuard :: nat
  routeBound :: "callback list"
  getFragment :: string
  forwarders :: nat
  trace :: "event list"

text \<open>
  \<open>objects\<close> is the heap of options objects and \<open>arrays\<close> the heap of queue arrays
  (each a list of references to options objects): the code keeps both by reference,
  mutates them in place and compares queue arrays by identity.
\<close>

definition emit :: "event list \<Rightarrow> world \<Rightarrow> world" where
  "emit es w = w\<lparr>trace := trace w @ es\<rparr>"

text \<open>LoadableMixin (lines 126 to 133) and the one-shot forwarders that
  \<open>Thorax.forwardLoadEvents(this, exports, true)\<close> binds (lines 104 to 117).\<close>

definition loadStart :: "bool \<Rightarrow> world \<Rightarrow> world" where
  "loadStart b w =
     (emit (TriggerLoadStart b # replicate (forwarders w) (ForwardLoadStart b)) w)
       \<lparr>forwarders := 0\<rparr>"

definition loadEnd :: "world \<Rightarrow> world" where
  "loadEnd w = emit [TriggerLoadEnd] w"

definition forwardLoadEvents :: "world \<Rightarrow> world" where
  "forwardLoadEvents w = w\<lparr>forwarders := Suc (forwarders w)\<rparr>"

text \<open>fetchQueue (lines 205 to 225), called with a reference to the options object.\<close>

definition fetchQueue :: "nat \<Rightarrow> world \<Rightarrow> world" where
  "fetchQueue r w =
     (let w1 = (if resetQueue (objects w r) then w\<lparr>this_fetchQueue := None\<rparr> else w)
      in case this_fetchQueue w1 of
           None \<Rightarrow>
             (let q = nextArray w1
              in emit [SuperFetch q]
                   (w1\<lparr>this_fetchQueue := Some q,
                       arrays := (arrays w1)(q := [r]),
                       nextArray := Suc q\<rparr>))
         | Some q \<Rightarrow> w1\<lparr>arrays := (arrays w1)(q := arrays w1 q @ [r])\<rparr>)"

text \<open>The fetch override (lines 252 to 264). \<open>None\<close> is a call without options, for
  which \<open>options || {}\<close> makes a new object; \<open>Some r\<close> passes the caller's object, whose
  \<open>complete\<close> property the code overwrites in place.\<close>

definition newObject :: "options \<Rightarrow> world \<Rightarrow> nat \<times> world" where
  "newObject opts w =
     (nextObject w,
      w\<lparr>objects := (objects w)(nextObject w := opts), nextObject := Suc (nextObject w)\<rparr>)"

definition fetch :: "nat option \<Rightarrow> world \<Rightarrow> world" where
  "fetch optionsArg w =
     (let (r, w1) = (case optionsArg of Some r \<Rightarrow> (r, w) | None \<Rightarrow> newObject emptyOptions w);
          c = complete (objects w1 r);
          w2 = w1\<lparr>objects := (objects w1)(r := (objects w1 r)\<lparr>complete := Some (FetchComplete c)\<rparr>)\<rparr>;
          w3 = loadStart (backgroundOpt (objects w2 r)) w2
      in fetchQueue r w3)"

text \<open>The closures, applied to arguments.\<close>

fun invoke :: "callback \<Rightarrow> arg list \<Rightarrow> world \<Rightarrow> world" where
  "invoke (User k) args w = emit [Called k args] w"
| "invoke (UserFetch k a) args w = fetch a (emit [Called k args] w)"
| "invoke (BindFailback f e) args w = invoke f (Bool e # args) w"
| "invoke (LoadFailback failback) args w =
     (let w1 = (if \<not> truthy args
                then (case this_request w of
                        Some h \<Rightarrow> emit [Abort h] (w\<lparr>this_aborted := True\<rparr>)
                      | None \<Rightarrow> w)
                else w)
      in case failback of Some f \<Rightarrow> invoke f args w1 | None \<Rightarrow> w1)"
| "invoke (BindFinalizer g isCanceled frag callback failback) args w =
     (let same = (frag = getFragment w) in
      if completed w g then w
      else if isCanceled \<and> same then w
      else
        (let w1 = w\<lparr>completed := (completed w)(g := True),
                     routeBound := removeAll (BindFinalizer g True frag callback failback)
                                     (routeBound w)\<rparr>
         in if \<not> isCanceled \<and> same then invoke callback args w1
            else (case failback of Some f \<Rightarrow> invoke f args w1 | None \<Rightarrow> w1)))"
| "invoke (FetchComplete c) args w =
     loadEnd (case c of Some f \<Rightarrow> invoke f args w | None \<Rightarrow> w)"

text \<open>bindToRoute (lines 154 to 187): returns the success trigger and the world in
  which the guard exists and its resetLoader is bound to the route event.\<close>

definition resetLoader :: "nat \<Rightarrow> string \<Rightarrow> callback \<Rightarrow> callback option \<Rightarrow> callback" where
  "resetLoader g frag callback failback = BindFinalizer g True frag callback failback"

definition bindToRoute :: "callback \<Rightarrow> callback option \<Rightarrow> world \<Rightarrow> callback \<times> world" where
  "bindToRoute callback failback w =
     (let g = nextGuard w; frag = getFragment w
      in (BindFinalizer g False frag callback failback,
          w\<lparr>nextGuard := Suc g,
            completed := (completed w)(g := False),
            routeBound := routeBound w @ [resetLoader g frag callback failback]\<rparr>))"

text \<open>The route event of Backbone.history: every listener bound when it fires is
  called with the event's arguments.\<close>

definition routeEvent :: "arg list \<Rightarrow> world \<Rightarrow> world" where
  "routeEvent args w = fold (\<lambda>l. invoke l args) (routeBound w) w"

text \<open>flushQueue (lines 227 to 244), the closure it returns applied to \<open>args\<close>.
  \<open>forEach\<close> visits the entries the array has when the flush starts (one that a
  callback pushes meanwhile is not visited) and reads the property of each queued
  object when it comes to it; \<open>this.fetchQueue\<close> is compared after the callbacks.\<close>

definition callHandler :: "handler \<Rightarrow> arg list \<Rightarrow> nat \<Rightarrow> world \<Rightarrow> world" where
  "callHandler h args r w =
     (case field h (objects w r) of Some f \<Rightarrow> invoke f args w | None \<Rightarrow> w)"

definition flushQueue :: "nat \<Rightarrow> handler \<Rightarrow> arg list \<Rightarrow> world \<Rightarrow> world" where
  "flushQueue q h args w =
     (let w1 = fold (callHandler h args) (arrays w q) w
      in if this_fetchQueue w1 = Some q then w1\<lparr>this_fetchQueue := None\<rparr> else w1)"

text \<open>
  loadData (lines 189 to 203). It is private to the file and its one call site, in
  load, passes three arguments of which the second is a function, so the branch for
  two arguments (lines 194 to 197) never runs and \<open>failback\<close> is a function here.
  \<open>_.defaults\<close> fills the new object's missing properties from \<open>options\<close>, which is
  only read: it is passed as a value.
\<close>

definition loadData :: "callback \<Rightarrow> callback \<Rightarrow> options \<Rightarrow> world \<Rightarrow> world" where
  "loadData callback failback opts w =
     (if isPopulated w then invoke callback [Self] w
      else
        (let (t, w1) = bindToRoute callback (Some (BindFailback failback False)) w;
             (r, w2) = newObject (opts\<lparr>success := Some t,
                                       error := Some (BindFailback failback True)\<rparr>) w1
         in fetch (Some r) w2))"

text \<open>load (lines 266 to 293). The arguments after \<open>callback\<close> are JavaScript
  values; \<open>arguments.length === 2\<close> is one such argument.\<close>

datatype jsarg = JUndefined | JFunction callback | JObject options

fun function_of :: "jsarg \<Rightarrow> callback option" where
  "function_of (JFunction f) = Some f"
| "function_of _ = None"

fun options_of :: "jsarg \<Rightarrow> options" where
  "options_of (JObject opts) = opts"
| "options_of _ = emptyOptions"

fun nth_arg :: "jsarg list \<Rightarrow> nat \<Rightarrow> jsarg" where
  "nth_arg [] _ = JUndefined"
| "nth_arg (x # _) 0 = x"
| "nth_arg (_ # xs) (Suc n) = nth_arg xs n"

definition load :: "callback \<Rightarrow> jsarg list \<Rightarrow> world \<Rightarrow> world" where
  "load callback rest w =
     (let swap = (length rest = 1 \<and> function_of (nth_arg rest 0) = None);
          failback = (if swap then None else function_of (nth_arg rest 0));
          opts = options_of (if swap then nth_arg rest 0 else nth_arg rest 1);
          w1 = (if \<not> backgroundOpt opts \<and> \<not> isPopulated w then forwardLoadEvents w else w)
      in loadData callback (LoadFailback failback) opts w1)"

text \<open>Thorax.sync (lines 137 to 152): \<open>h\<close> is the handle Backbone.sync returns; the
  \<open>complete\<close> it installs resets the request and then runs the previous one.\<close>

definition sync :: "nat \<Rightarrow> world \<Rightarrow> world" where
  "sync h w = emit [TriggerRequest h] (w\<lparr>this_request := Some h\<rparr>)"

definition syncComplete :: "(world \<Rightarrow> world) \<Rightarrow> world \<Rightarrow> world" where
  "syncComplete previous w = previous (w\<lparr>this_request := None, this_aborted := False\<rparr>)"

definition world0 :: world where
  "world0 = \<lparr>isPopulated = False, this_fetchQueue = None, arrays = (\<lambda>_. []),
     nextArray = 0, objects = (\<lambda>_. emptyOptions), nextObject = 0,
     this_request = None, this_aborted = False, completed = (\<lambda>_. False),
     nextGuard = 0, routeBound = [], getFragment = ''home'', forwarders = 0,
     trace = []\<rparr>"

text \<open>What may happen to a guard after bindToRoute made it: its success trigger is
  called, the route event fires, or the current fragment changes.\<close>

datatype gstep = Trigger "arg list" | Route "arg list" | Navigate string

fun guardStep :: "callback \<Rightarrow> gstep \<Rightarrow> world \<Rightarrow> world" where
  "guardStep t (Trigger args) w = invoke t args w"
| "guardStep t (Route args) w = routeEvent args w"
| "guardStep t (Navigate f) w = w\<lparr>getFragment := f\<rparr>"

text \<open>The calls a flush makes when the queued callbacks are the caller's own
  functions.\<close>

fun userCalls :: "arg list \<Rightarrow> callback option \<Rightarrow> event list" where
  "userCalls args (Some (User k)) = [Called k args]"
| "userCalls args _ = []"

fun isUser :: "callback option \<Rightarrow> bool" where
  "isUser None = True"
| "isUser (Some (User k)) = True"
| "isUser _ = False"

text \<open>A callback that never fetches on the object, whatever it wraps.\<close>

fun plain :: "callback \<Rightarrow> bool" where
  "plain (User k) = True"
| "plain (UserFetch k a) = False"
| "plain (BindFailback f e) = plain f"
| "plain (LoadFailback failback) = (case failback of None \<Rightarrow> True | Some f \<Rightarrow> plain f)"
| "plain (BindFinalizer g c frag callback failback) =
     (plain callback \<and> (case failback of None \<Rightarrow> True | Some f \<Rightarrow> plain f))"
| "plain (FetchComplete c) = (case c of None \<Rightarrow> True | Some f \<Rightarrow> plain f)"

definition plainOpt :: "callback option \<Rightarrow> bool" where
  "plainOpt c = (case c of None \<Rightarrow> True | Some f \<Rightarrow> plain f)"

text \<open>What a queued options object holds for a handler once fetch has run on it:
  the caller's \<open>success\<close> and \<open>error\<close>, and the wrapper around the caller's
  \<open>complete\<close>. And what one caller's share of a flush is when its callbacks are
  plain functions of its own: its callback, and for \<open>complete\<close> the load:end of the
  wrapper after it.\<close>

fun queued :: "handler \<Rightarrow> options \<Rightarrow> callback option" where
  "queued Complete opts = Some (FetchComplete (complete opts))"
| "queued h opts = field h opts"

fun callerEvents :: "handler \<Rightarrow> arg list \<Rightarrow> options \<Rightarrow> event list" where
  "callerEvents Complete args opts = userCalls args (complete opts) @ [TriggerLoadEnd]"
| "callerEvents h args opts = userCalls args (field h opts)"

definition isUserOptions :: "options \<Rightarrow> bool" where
  "isUserOptions opts \<longleftrightarrow> isUser (success opts) \<and> isUser (error opts) \<and> isUser (complete opts)"

text \<open>The invariant of one guard under any sequence of steps: either it is not
  completed, still subscribed, and nothing was called, or it is completed,
  unsubscribed, and at most one call was made.\<close>

definition ginv :: "nat \<Rightarrow> nat \<Rightarrow> callback \<Rightarrow> nat option \<Rightarrow> event list \<Rightarrow> world \<Rightarrow> bool" where
  "ginv a g reset b tr0 w \<longleftrightarrow>
     (\<not> completed w g \<and> routeBound w = [reset] \<and> trace w = tr0) \<or>
     (completed w g \<and> routeBound w = [] \<and>
        (\<exists>new. trace w = tr0 @ new \<and> length new \<le> 1 \<and> (b \<noteq> None \<longrightarrow> length new = 1) \<and>
           (\<forall>e \<in> set new. \<exists>args. e = Called a args \<or> (\<exists>k. b = Some k \<and> e = Called k args))))"

text \<open>A world with two options objects of two callers, each with its own
  \<open>success\<close> callback; and one whose first caller fetches again, with the second
  object, inside its \<open>success\<close> callback.\<close>

definition twoCallers :: world where
  "twoCallers = world0\<lparr>objects := (\<lambda>r. emptyOptions\<lparr>success := Some (User r)\<rparr>), nextObject := 2\<rparr>"

definition nestedCaller :: world where
  "nestedCaller = world0\<lparr>objects := (\<lambda>r. emptyOptions\<lparr>success :=
       Some (if r = 0 then UserFetch 0 (Some 1) else User r)\<rparr>), nextObject := 2\<rparr>"

section \<open>The load handler\<close>

text \<open>
  \<open>Thorax.loadHandler(start, end)\<close> (lines 26 to 97) returns the listener for
  load:start of one object \<open>self\<close>. The model is the state of that object as the
  listener and the closures it creates see and change it, one listener per object:
  \<^item> the signal objects \<open>self._loadStart\<close> has pointed to live in a heap, because the
    end timer's closure keeps the \<open>events\<close> array of the signal it was made for;
  \<^item> \<open>setTimeout\<close> adds a pending timer with a fresh handle and a due time,
    \<open>clearTimeout\<close> removes the timers of a handle (handle 0 is never given out: it is
    the initial \<open>timeout: 0\<close>, and stands for the undefined \<open>endTimeout\<close> as well);
  \<^item> \<open>bound\<close> lists the objects on which an \<open>endCallback\<close> is bound, in the order of
    binding; a load:end triggered on an object calls every \<open>endCallback\<close> bound on
    it when the trigger starts, once each;
  \<^item> the callbacks \<open>start\<close> and \<open>end\<close> and the load:end triggered on the signal are
    opaque: they are recorded in \<open>outputs\<close> and do not call back into the object.
  Reading a property of \<open>self._loadStart\<close> while it is undefined is a TypeError.
  Delays are in milliseconds, as passed to \<open>setTimeout\<close>. In the branch for an
  existing signal the variable \<open>loadingTimeout\<close> of the call is never assigned, so
  \<open>startLoadTimeout\<close> passes \<open>undefined*1000\<close>, which is NaN: \<open>nanDelay\<close> is the
  delay that \<open>setTimeout\<close> gives such a timer.
\<close>

record config =
  startDelay :: nat
  endDelay :: nat
  nanDelay :: nat

record signal =
  events :: "nat list"
  timeout :: nat
  endTimeout :: nat
  message :: "string option"
  background :: bool
  run :: bool

datatype action = StartAction | EndAction nat

record timer =
  tid :: nat
  due :: nat
  action :: action

datatype effect =
    OnStart "string option" bool nat
  | OnEnd bool nat
  | SignalLoadEnd nat

datatype error = TypeError

record view =
  this_loadStart :: "nat option"
  signals :: "nat \<Rightarrow> signal"
  nextSignal :: nat
  timers :: "timer list"
  nextTimer :: nat
  now :: nat
  bound :: "nat list"
  outputs :: "effect list"

definition clearTimeout :: "nat \<Rightarrow> view \<Rightarrow> view" where
  "clearTimeout h v = v\<lparr>timers := filter (\<lambda>t. tid t \<noteq> h) (timers v)\<rparr>"

definition setTimeout :: "action \<Rightarrow> nat \<Rightarrow> view \<Rightarrow> nat \<times> view" where
  "setTimeout a delay v =
     (nextTimer v,
      v\<lparr>timers := timers v @ [\<lparr>tid = nextTimer v, due = now v + delay, action = a\<rparr>],
        nextTimer := Suc (nextTimer v)\<rparr>)"

definition updSignal :: "nat \<Rightarrow> (signal \<Rightarrow> signal) \<Rightarrow> view \<Rightarrow> view" where
  "updSignal c f v = v\<lparr>signals := (signals v)(c := f (signals v c))\<rparr>"

text \<open>startLoadTimeout (lines 30 to 37), for the current signal \<open>c\<close>.\<close>

definition startLoadTimeout :: "nat \<Rightarrow> nat \<Rightarrow> view \<Rightarrow> view" where
  "startLoadTimeout c delay v =
     (let (h, v1) = setTimeout StartAction delay (clearTimeout (timeout (signals v c)) v)
      in updSignal c (\<lambda>s. s\<lparr>timeout := h\<rparr>) v1)"

text \<open>The listener itself (lines 27 to 63 and the \<open>bind\<close> of line 64).\<close>

definition loadHandler :: "config \<Rightarrow> string option \<Rightarrow> bool \<Rightarrow> nat \<Rightarrow> view \<Rightarrow> view" where
  "loadHandler cfg msg bg obj v =
     (let (c, v1) =
        (case this_loadStart v of
           None \<Rightarrow>
             (let c = nextSignal v;
                  v0 = v\<lparr>this_loadStart := Some c,
                         signals := (signals v)(c := \<lparr>events = [], timeout = 0, endTimeout = 0,
                                       message = msg, background = bg, run = False\<rparr>),
                         nextSignal := Suc c\<rparr>
              in (c, startLoadTimeout c (startDelay cfg) v0))
         | Some c \<Rightarrow>
             (let v0 = updSignal c (\<lambda>s. s\<lparr>message := msg\<rparr>)
                         (clearTimeout (endTimeout (signals v c)) v)
              in (c, if \<not> bg \<and> background (signals v0 c)
                     then startLoadTimeout c (nanDelay cfg)
                            (updSignal c (\<lambda>s. s\<lparr>background := False\<rparr>) v0)
                     else v0)))
      in (updSignal c (\<lambda>s. s\<lparr>events := events s @ [obj]\<rparr>) v1)\<lparr>bound := bound v1 @ [obj]\<rparr>)"

text \<open>endCallback (lines 64 to 95) after it has unbound itself; \<open>indexOf\<close> and
  \<open>splice\<close> remove the first occurrence of the object.\<close>

definition endCallback :: "config \<Rightarrow> nat \<Rightarrow> view \<Rightarrow> error + view" where
  "endCallback cfg obj v =
     (case this_loadStart v of
        None \<Rightarrow> Inl TypeError
      | Some c \<Rightarrow>
          (let v1 = updSignal c (\<lambda>s. s\<lparr>events := remove1 obj (events s)\<rparr>) v
           in if events (signals v1 c) = []
              then (let (h, v2) = setTimeout (EndAction c) (endDelay cfg) v1
                    in Inr (updSignal c (\<lambda>s. s\<lparr>endTimeout := h\<rparr>) v2))
              else Inr v1))"

text \<open>\<open>object.trigger('load:end')\<close>: each endCallback bound on the object runs once,
  unbinding itself first.\<close>

fun triggerLoadEnd :: "config \<Rightarrow> nat \<Rightarrow> nat \<Rightarrow> view \<Rightarrow> error + view" where
  "triggerLoadEnd cfg obj 0 v = Inr v"
| "triggerLoadEnd cfg obj (Suc n) v =
     (case endCallback cfg obj (v\<lparr>bound := remove1 obj (bound v)\<rparr>) of
        Inl e \<Rightarrow> Inl e
      | Inr v' \<Rightarrow> triggerLoadEnd cfg obj n v')"

text \<open>The action of the start timer (lines 32 to 35).\<close>

definition startAction :: "view \<Rightarrow> error + view" where
  "startAction v =
     (case this_loadStart v of
        None \<Rightarrow> Inl TypeError
      | Some c \<Rightarrow>
          (let v1 = updSignal c (\<lambda>s. s\<lparr>run := True\<rparr>) v
           in Inr (v1\<lparr>outputs := outputs v1 @
                      [OnStart (message (signals v1 c)) (background (signals v1 c)) c]\<rparr>)))"

text \<open>The action of the end timer (lines 79 to 93); \<open>r\<close> is the signal whose
  \<open>events\<close> array the closure holds.\<close>

definition endAction :: "nat \<Rightarrow> view \<Rightarrow> error + view" where
  "endAction r v =
     (if events (signals v r) = []
      then (case this_loadStart v of
              None \<Rightarrow> Inl TypeError
            | Some c \<Rightarrow>
                (let v1 = (if run (signals v c)
                           then v\<lparr>outputs := outputs v @
                                  [OnEnd (background (signals v c)) c, SignalLoadEnd c]\<rparr>
                           else v)
                 in Inr ((clearTimeout (timeout (signals v1 c)) v1)\<lparr>this_loadStart := None\<rparr>)))
      else Inr v)"

text \<open>A timer fires: it is no longer pending, the clock is at least its due time,
  and its action runs.\<close>

definition fire :: "timer \<Rightarrow> view \<Rightarrow> error + view" where
  "fire t v =
     (let v1 = v\<lparr>timers := filter (\<lambda>u. tid u \<noteq> tid t) (timers v), now := max (now v) (due t)\<rparr>
      in case action t of StartAction \<Rightarrow> startAction v1 | EndAction r \<Rightarrow> endAction r v1)"

text \<open>The pending timer that fires next up to time \<open>T\<close>: the least due time, the
  one set first among equals.\<close>

fun earliest :: "nat \<Rightarrow> timer list \<Rightarrow> timer option" where
  "earliest T [] = None"
| "earliest T (t # ts) =
     (if due t \<le> T
      then (case earliest T ts of
              Some u \<Rightarrow> if due u < due t then Some u else Some t
            | None \<Rightarrow> Some t)
      else earliest T ts)"

definition pending :: "view \<Rightarrow> nat" where
  "pending v = length (timers v)"

function runTimers :: "nat \<Rightarrow> view \<Rightarrow> error + view" where
  "runTimers T v =
     (case earliest T (timers v) of
        None \<Rightarrow> Inr (v\<lparr>now := max (now v) T\<rparr>)
      | Some t \<Rightarrow>
          (case fire t v of
             Inl e \<Rightarrow> Inl e
           | Inr v' \<Rightarrow> runTimers T v'))"
  by pat_completeness auto

lemma earliest_in_set: "earliest T ts = Some t \<Longrightarrow> t \<in> set ts"
  by (induction ts arbitrary: t) (auto split: if_splits option.splits)

lemma fire_pending:
  assumes "t \<in> set (timers v)" and "fire t v = Inr v'"
  shows "pending v' < pending v"
proof -
  let ?ts = "filter (\<lambda>u. tid u \<noteq> tid t) (timers v)"
  have less: "length ?ts < length (timers v)"
    using assms(1) length_filter_less[of t "timers v" "\<lambda>u. tid u \<noteq> tid t"] by simp
  have le: "length (timers v') \<le> length ?ts"
  proof (cases "action t")
    case StartAction
    with assms(2) show ?thesis
      by (auto simp: fire_def startAction_def updSignal_def Let_def split: option.splits)
  next
    case (EndAction r)
    have "length (filter P ?ts) \<le> length ?ts" for P by (rule length_filter_le)
    with assms(2) EndAction show ?thesis
      by (auto simp: fire_def endAction_def clearTimeout_def Let_def
               split: option.splits if_splits)
  qed
  from less le show ?thesis by (simp add: pending_def)
qed

termination runTimers
proof (relation "measure (\<lambda>(T, v). pending v)")
  show "wf (measure (\<lambda>(T, v). pending v))" by simp
next
  fix T v t v'
  assume "earliest T (timers v) = Some t" and "fire t v = Inr v'"
  then show "((T, v'), (T, v)) \<in> measure (\<lambda>(T, v). pending v)"
    using fire_pending[OF earliest_in_set] by simp
qed

text \<open>What reaches the object: load:start triggered on it, load:end triggered on an
  object, and time passing (every timer due by then fires, in order).\<close>

datatype input = LoadStart "string option" bool nat | LoadEnd nat | Elapse nat

fun step :: "config \<Rightarrow> input \<Rightarrow> view \<Rightarrow> error + view" where
  "step cfg (LoadStart msg bg obj) v = Inr (loadHandler cfg msg bg obj v)"
| "step cfg (LoadEnd obj) v = triggerLoadEnd cfg obj (count_list (bound v) obj) v"
| "step cfg (Elapse d) v = runTimers (now v + d) v"

fun deliver :: "config \<Rightarrow> input list \<Rightarrow> view \<Rightarrow> error + view" where
  "deliver cfg [] v = Inr v"
| "deliver cfg (i # ins) v =
     (case step cfg i v of Inl e \<Rightarrow> Inl e | Inr v' \<Rightarrow> deliver cfg ins v')"

definition view0 :: view where
  "view0 = \<lparr>this_loadStart = None,
     signals = (\<lambda>_. \<lparr>events = [], timeout = 0, endTimeout = 0, message = None,
                      background = False, run = False\<rparr>),
     nextSignal = 0, timers = [], nextTimer = 1, now = 0, bound = [], outputs = []\<rparr>"

definition outputsOf :: "error + view \<Rightarrow> effect list option" where
  "outputsOf r = (case r of Inl e \<Rightarrow> None | Inr v \<Rightarrow> Some (outputs v))"

fun isStart :: "nat \<Rightarrow> effect \<Rightarrow> bool" where
  "isStart r (OnStart m b r') = (r = r')"
| "isStart r _ = False"

fun isEnd :: "nat \<Rightarrow> effect \<Rightarrow> bool" where
  "isEnd r (OnEnd b r') = (r = r')"
| "isEnd r _ = False"

fun signalOf :: "effect \<Rightarrow> nat" where
  "signalOf (OnStart m b r) = r"
| "signalOf (OnEnd b r) = r"
| "signalOf (SignalLoadEnd r) = r"

text \<open>
  What holds of the object whenever the listener and its closures are not running.
  Without a signal nothing is pending. With signal \<open>c\<close>, an endCallback is bound for
  each entry of its \<open>events\<close>, a pending start timer is the one in its \<open>timeout\<close>,
  and a pending end timer is the one in its \<open>endTimeout\<close>, was made for \<open>c\<close>, and
  finds \<open>events\<close> empty.
\<close>

definition timersOK :: "view \<Rightarrow> bool" where
  "timersOK v \<longleftrightarrow>
     (case this_loadStart v of
        None \<Rightarrow> timers v = [] \<and> bound v = []
      | Some c \<Rightarrow>
          bound v = events (signals v c) \<and>
          (\<forall>t \<in> set (timers v).
             (action t = StartAction \<and> tid t = timeout (signals v c)) \<or>
             (action t = EndAction c \<and> tid t = endTimeout (signals v c) \<and>
              events (signals v c) = [])))"

text \<open>
  What holds of the callbacks made so far: they are about signals already created;
  the current signal has had no \<open>end\<close> call, and a \<open>start\<close> call if it has run; no
  signal has had two \<open>end\<close> calls, and each \<open>end\<close> call comes after a \<open>start\<close> call
  for the same signal.
\<close>

definition logOK :: "view \<Rightarrow> bool" where
  "logOK v \<longleftrightarrow>
     (\<forall>x \<in> set (outputs v). signalOf x < nextSignal v) \<and>
     (\<forall>c. this_loadStart v = Some c \<longrightarrow>
          c < nextSignal v \<and> \<not> list_ex (isEnd c) (outputs v) \<and>
          (run (signals v c) \<longrightarrow> list_ex (isStart c) (outputs v))) \<and>
     (\<forall>r. length (filter (isEnd r) (outputs v)) \<le> 1) \<and>
     (\<forall>xs b r ys. outputs v = xs @ OnEnd b r # ys \<longrightarrow> list_ex (isStart r) xs)"

text \<open>The delays of the view prototype (lines 321 and 322), and a browser's
  \<open>setTimeout\<close>, which runs a timer of delay NaN as soon as it can.\<close>

definition defaults :: config where
  "defaults = \<lparr>startDelay = 330, endDelay = 100, nanDelay = 0\<rparr>"


section \<open>Properties of the data object\<close>

lemma trace_emit: "trace (emit es w) = trace w @ es" by (simp add: emit_def)

lemma fetch_frame:
  "completed (fetch a w) = completed w"
  "routeBound (fetch a w) = routeBound w"
  "this_aborted (fetch a w) = this_aborted w"
  by (cases a; simp add: fetch_def fetchQueue_def newObject_def loadStart_def emit_def Let_def
        split: option.splits)+

lemma invoke_completed_mono: "completed w g \<Longrightarrow> completed (invoke f args w) g"
  by (induction f args w rule: invoke.induct)
     (auto simp: emit_def loadEnd_def Let_def fetch_frame split: option.splits)

lemma invoke_routeBound_subset: "set (routeBound (invoke f args w)) \<subseteq> set (routeBound w)"
proof (induction f args w rule: invoke.induct)
  case (1 k args w)
  show ?case by (simp add: emit_def)
next
  case (2 k a args w)
  show ?case by (simp add: fetch_frame emit_def)
next
  case (3 f e args w)
  then show ?case by simp
next
  case (4 failback args w)
  define w1 where "w1 = (if \<not> truthy args
                then (case this_request w of
                        Some h \<Rightarrow> emit [Abort h] (w\<lparr>this_aborted := True\<rparr>)
                      | None \<Rightarrow> w)
                else w)"
  have r: "routeBound w1 = routeBound w"
    by (simp add: w1_def emit_def split: option.splits)
  show ?case
  proof (cases failback)
    case None
    then show ?thesis using r by (simp add: w1_def[symmetric])
  next
    case (Some f)
    from 4[OF w1_def Some] r Some show ?thesis by (simp add: w1_def[symmetric])
  qed
next
  case (5 g isCanceled frag callback failback args w)
  define w1 where "w1 = w\<lparr>completed := (completed w)(g := True),
                 routeBound := removeAll (BindFinalizer g True frag callback failback) (routeBound w)\<rparr>"
  have s1: "set (routeBound w1) \<subseteq> set (routeBound w)" by (auto simp: w1_def)
  show ?case
  proof (cases "completed w g \<or> (isCanceled \<and> frag = getFragment w)")
    case True
    then show ?thesis by (auto split: if_splits)
  next
    case False
    show ?thesis
    proof (cases "\<not> isCanceled \<and> frag = getFragment w")
      case True
      with False 5(1)[of "frag = getFragment w" w1] s1 show ?thesis
        by (auto simp: Let_def w1_def)
    next
      case nt: False
      show ?thesis
      proof (cases failback)
        case None
        with False nt s1 show ?thesis by (auto simp: Let_def w1_def)
      next
        case (Some f)
        with False nt 5(2)[of "frag = getFragment w" w1 f] s1 show ?thesis
          by (auto simp: Let_def w1_def)
      qed
    qed
  qed
next
  case (6 c args w)
  show ?case
  proof (cases c)
    case None
    then show ?thesis by (simp add: loadEnd_def emit_def)
  next
    case (Some f)
    with 6[OF Some] show ?thesis by (simp add: loadEnd_def emit_def)
  qed
qed

lemma invoke_plain:
  "plain f \<Longrightarrow> this_fetchQueue (invoke f args w) = this_fetchQueue w \<and>
                 arrays (invoke f args w) = arrays w \<and>
                 objects (invoke f args w) = objects w"
  by (induction f args w rule: invoke.induct)
     (auto simp: emit_def loadEnd_def Let_def split: option.splits)

lemma invoke_this_aborted_mono: "this_aborted w \<Longrightarrow> this_aborted (invoke f args w)"
  by (induction f args w rule: invoke.induct)
     (auto simp: emit_def loadEnd_def Let_def fetch_frame split: option.splits)

lemma ginv_step:
  assumes "ginv a g (BindFinalizer g True frag (User a) (map_option User b)) b tr0 w"
  shows "ginv a g (BindFinalizer g True frag (User a) (map_option User b)) b tr0
           (guardStep (BindFinalizer g False frag (User a) (map_option User b)) s w)"
proof (cases s)
  case (Trigger args)
  show ?thesis
  proof (cases "frag = getFragment w")
    case True
    with assms Trigger show ?thesis
      by (cases b) (auto simp: ginv_def emit_def Let_def)
  next
    case False
    with assms Trigger show ?thesis
      by (cases b) (auto simp: ginv_def emit_def Let_def)
  qed
next
  case (Route args)
  show ?thesis
  proof (cases "frag = getFragment w")
    case True
    with assms Route show ?thesis
      by (cases b) (auto simp: ginv_def emit_def Let_def routeEvent_def)
  next
    case False
    with assms Route show ?thesis
      by (cases b) (auto simp: ginv_def emit_def Let_def routeEvent_def)
  qed
next
  case (Navigate f)
  with assms show ?thesis by (auto simp: ginv_def)
qed

lemma ginv_fold:
  assumes "ginv a g (BindFinalizer g True frag (User a) (map_option User b)) b tr0 w"
  shows "ginv a g (BindFinalizer g True frag (User a) (map_option User b)) b tr0
           (fold (guardStep (BindFinalizer g False frag (User a) (map_option User b))) steps w)"
  using assms
proof (induction steps arbitrary: w)
  case Nil
  then show ?case by simp
next
  case (Cons s steps)
  from Cons.IH[OF ginv_step[OF Cons.prems]] show ?case by simp
qed

lemma trigger_completes:
  "completed (guardStep (BindFinalizer g False frag cb fb) (Trigger args) w) g"
  using invoke_completed_mono[of _ g]
  by (auto simp: Let_def split: option.splits)

lemma gstep_completed_mono:
  assumes "completed w g" shows "completed (guardStep t s w) g"
proof (cases s)
  case (Route args)
  have "\<And>w. completed w g \<Longrightarrow> completed (fold (\<lambda>l. invoke l args) ls w) g" for ls
    by (induction ls) (auto intro: invoke_completed_mono)
  then show ?thesis using Route assms by (simp add: routeEvent_def)
qed (insert assms, auto intro: invoke_completed_mono)

lemma fold_completed_mono:
  "completed w g \<Longrightarrow> completed (fold (guardStep t) steps w) g"
  by (induction steps arbitrary: w) (auto intro: gstep_completed_mono)

lemma trigger_in_steps_completes:
  "Trigger args \<in> set steps \<Longrightarrow>
     completed (fold (guardStep (BindFinalizer g False frag cb fb)) steps w) g"
proof (induction steps arbitrary: w)
  case Nil then show ?case by simp
next
  case (Cons s steps)
  show ?case
  proof (cases "s = Trigger args")
    case True
    then show ?thesis
      using fold_completed_mono[OF trigger_completes[of g frag cb fb args w]] by simp
  next
    case False
    with Cons show ?thesis by simp
  qed
qed

lemma fetchQueue_objects: "objects (fetchQueue r w) = objects w"
  by (simp add: fetchQueue_def Let_def emit_def split: option.splits)

lemma loadData_wiring:
  assumes "\<not> isPopulated w"
  shows "success (objects (loadData cb f opts w) (nextObject w)) =
           Some (BindFinalizer (nextGuard w) False (getFragment w) cb (Some (BindFailback f False)))"
    and "error (objects (loadData cb f opts w) (nextObject w)) = Some (BindFailback f True)"
  using assms
  by (simp_all add: loadData_def bindToRoute_def newObject_def fetch_def Let_def
        fetchQueue_objects loadStart_def emit_def)

lemma load_wiring:
  assumes "\<not> isPopulated w"
  shows "success (objects (load cb rest w) (nextObject w)) =
           Some (BindFinalizer (nextGuard w) False (getFragment w) cb
                  (Some (BindFailback (LoadFailback (function_of (nth_arg rest 0))) False)))"
    and "error (objects (load cb rest w) (nextObject w)) =
           Some (BindFailback (LoadFailback (function_of (nth_arg rest 0))) True)"
  using assms loadData_wiring[of "forwardLoadEvents w"] loadData_wiring[of w]
  by (auto simp: load_def Let_def forwardLoadEvents_def)

lemma callHandler_plain:
  assumes "plainOpt (field h (objects w r))"
  shows "this_fetchQueue (callHandler h args r w) = this_fetchQueue w"
    and "arrays (callHandler h args r w) = arrays w"
    and "objects (callHandler h args r w) = objects w"
  using assms invoke_plain
  by (auto simp: callHandler_def plainOpt_def split: option.splits)

lemma fold_callHandler_plain:
  assumes "\<forall>r \<in> set rs. plainOpt (field h (objects w r))"
  shows "this_fetchQueue (fold (callHandler h args) rs w) = this_fetchQueue w \<and>
         objects (fold (callHandler h args) rs w) = objects w"
  using assms
proof (induction rs arbitrary: w)
  case Nil
  then show ?case by simp
next
  case (Cons r rs)
  from Cons.prems have p: "plainOpt (field h (objects w r))" by simp
  note c = callHandler_plain[OF p, of args]
  from Cons.prems c(3) have "\<forall>x \<in> set rs. plainOpt (field h (objects (callHandler h args r w) x))"
    by simp
  from Cons.IH[OF this] c show ?case by simp
qed

lemma flushQueue_clears:
  assumes "\<forall>r \<in> set (arrays w q). plainOpt (field h (objects w r))"
  shows "this_fetchQueue (flushQueue q h args w) =
           (if this_fetchQueue w = Some q then None else this_fetchQueue w)"
  using fold_callHandler_plain[OF assms, of args]
  by (simp add: flushQueue_def Let_def)

lemma callHandler_caller:
  assumes "isUserOptions opts" and "field h (objects w r) = queued h opts"
  shows "callHandler h args r w = emit (callerEvents h args opts) w"
proof (cases h)
  case Success
  with assms show ?thesis
    by (cases "success opts" rule: isUser.cases)
       (auto simp: callHandler_def isUserOptions_def emit_def)
next
  case Error
  with assms show ?thesis
    by (cases "error opts" rule: isUser.cases)
       (auto simp: callHandler_def isUserOptions_def emit_def)
next
  case Complete
  with assms show ?thesis
    by (cases "complete opts" rule: isUser.cases)
       (auto simp: callHandler_def isUserOptions_def emit_def loadEnd_def)
qed

lemma flush_pair:
  assumes "arrays w q = [r1, r2]"
    and "isUserOptions o1" and "isUserOptions o2"
    and "\<forall>h. field h (objects w r1) = queued h o1"
    and "\<forall>h. field h (objects w r2) = queued h o2"
  shows "flushQueue q h args w =
           (let w' = emit (callerEvents h args o1 @ callerEvents h args o2) w
            in if this_fetchQueue w = Some q then w'\<lparr>this_fetchQueue := None\<rparr> else w')"
proof -
  let ?w1 = "emit (callerEvents h args o1) w"
  have c1: "callHandler h args r1 w = ?w1"
    using callHandler_caller[OF assms(2), of h w r1 args] assms(4) by simp
  have "field h (objects ?w1 r2) = queued h o2" using assms(5) by (simp add: emit_def)
  from callHandler_caller[OF assms(3) this, of args]
  have c2: "callHandler h args r2 ?w1 = emit (callerEvents h args o2) ?w1" .
  have "fold (callHandler h args) (arrays w q) w = emit (callerEvents h args o2) ?w1"
    using assms(1) c1 c2 by simp
  then show ?thesis
    by (simp add: flushQueue_def Let_def emit_def)
qed

lemma fetch_Some:
  "fetch (Some r) w =
     fetchQueue r (loadStart (backgroundOpt (objects w r))
       (w\<lparr>objects := (objects w)(r := (objects w r)\<lparr>complete := Some (FetchComplete (complete (objects w r)))\<rparr>)\<rparr>))"
  by (simp add: fetch_def Let_def)

lemma fetch_first:
  assumes "this_fetchQueue w = None"
  shows "trace (fetch (Some r) w) =
           trace w @ TriggerLoadStart (backgroundOpt (objects w r))
                  # replicate (forwarders w) (ForwardLoadStart (backgroundOpt (objects w r)))
                  @ [SuperFetch (nextArray w)]"
    and "this_fetchQueue (fetch (Some r) w) = Some (nextArray w)"
    and "arrays (fetch (Some r) w) (nextArray w) = [r]"
    and "objects (fetch (Some r) w) =
           (objects w)(r := (objects w r)\<lparr>complete := Some (FetchComplete (complete (objects w r)))\<rparr>)"
    and "forwarders (fetch (Some r) w) = 0"
  using assms
  by (simp_all add: fetch_Some fetchQueue_def loadStart_def emit_def Let_def)

lemma fetch_queued:
  assumes "this_fetchQueue w = Some q" and "\<not> resetQueue (objects w r)"
  shows "trace (fetch (Some r) w) =
           trace w @ TriggerLoadStart (backgroundOpt (objects w r))
                  # replicate (forwarders w) (ForwardLoadStart (backgroundOpt (objects w r)))"
    and "this_fetchQueue (fetch (Some r) w) = Some q"
    and "arrays (fetch (Some r) w) q = arrays w q @ [r]"
    and "objects (fetch (Some r) w) =
           (objects w)(r := (objects w r)\<lparr>complete := Some (FetchComplete (complete (objects w r)))\<rparr>)"
  using assms
  by (simp_all add: fetch_Some fetchQueue_def loadStart_def emit_def Let_def)

lemma fetch_pair:
  assumes "this_fetchQueue w0 = None" and "r1 \<noteq> r2" and "\<not> resetQueue (objects w0 r2)"
  shows "trace (fetch (Some r2) (fetch (Some r1) w0)) =
           trace w0 @ TriggerLoadStart (backgroundOpt (objects w0 r1))
                    # replicate (forwarders w0) (ForwardLoadStart (backgroundOpt (objects w0 r1)))
                    @ [SuperFetch (nextArray w0), TriggerLoadStart (backgroundOpt (objects w0 r2))]"
    and "this_fetchQueue (fetch (Some r2) (fetch (Some r1) w0)) = Some (nextArray w0)"
    and "arrays (fetch (Some r2) (fetch (Some r1) w0)) (nextArray w0) = [r1, r2]"
    and "\<forall>h. field h (objects (fetch (Some r2) (fetch (Some r1) w0)) r1) = queued h (objects w0 r1)"
    and "\<forall>h. field h (objects (fetch (Some r2) (fetch (Some r1) w0)) r2) = queued h (objects w0 r2)"
proof -
  let ?w1 = "fetch (Some r1) w0"
  note f1 = fetch_first[OF assms(1), of r1]
  have o2: "objects ?w1 r2 = objects w0 r2" using assms(2) by (simp add: f1(4))
  have nr: "\<not> resetQueue (objects ?w1 r2)" using assms(3) o2 by simp
  note f2 = fetch_queued[OF f1(2) nr]
  show "trace (fetch (Some r2) ?w1) =
           trace w0 @ TriggerLoadStart (backgroundOpt (objects w0 r1))
                    # replicate (forwarders w0) (ForwardLoadStart (backgroundOpt (objects w0 r1)))
                    @ [SuperFetch (nextArray w0), TriggerLoadStart (backgroundOpt (objects w0 r2))]"
    by (simp add: f2(1) f1(1) f1(5) o2)
  show "this_fetchQueue (fetch (Some r2) ?w1) = Some (nextArray w0)" by (rule f2(2))
  show "arrays (fetch (Some r2) ?w1) (nextArray w0) = [r1, r2]" by (simp add: f2(3) f1(3))
  show "\<forall>h. field h (objects (fetch (Some r2) ?w1) r1) = queued h (objects w0 r1)"
  proof
    fix h show "field h (objects (fetch (Some r2) ?w1) r1) = queued h (objects w0 r1)"
      using assms(2) by (cases h) (simp_all add: f2(4) f1(4))
  qed
  show "\<forall>h. field h (objects (fetch (Some r2) ?w1) r2) = queued h (objects w0 r2)"
  proof
    fix h show "field h (objects (fetch (Some r2) ?w1) r2) = queued h (objects w0 r2)"
      using assms(2) by (cases h) (simp_all add: f2(4) f1(4))
  qed
qed

subsection \<open>Populated objects\<close>

text \<open>
  Claim C10. When \<open>isPopulated()\<close> is true, load (and loadData under it) does nothing
  but call the success callback with the object itself: the world after load is the
  world after that one call, so no fetch is issued, no guard is made or subscribed,
  no forwarder is bound and no load:start or load:end is triggered.
\<close>

theorem load_populated:
  "isPopulated w \<Longrightarrow> load callback rest w = invoke callback [Self] w"
  by (simp add: load_def loadData_def Let_def)

theorem load_populated_witness:
  "isPopulated (world0\<lparr>isPopulated := True\<rparr>) \<and>
   trace (load (User 1) [JFunction (User 2)] (world0\<lparr>isPopulated := True\<rparr>)) = [Called 1 [Self]] \<and>
   this_fetchQueue (load (User 1) [JFunction (User 2)] (world0\<lparr>isPopulated := True\<rparr>)) = None \<and>
   nextGuard (load (User 1) [JFunction (User 2)] (world0\<lparr>isPopulated := True\<rparr>)) = 0"
proof -
  have h: "isPopulated (world0\<lparr>isPopulated := True\<rparr>)" by simp
  show ?thesis
    using h load_populated [OF h, of "User 1" "[JFunction (User 2)]"]
    by (simp add: world0_def emit_def)
qed

subsection \<open>The route guard\<close>

text \<open>
  Claim C4, amended. The finalizer of a guard that is not yet completed: called as
  canceled while the fragment is the one captured by bindToRoute, it changes nothing
  (the guard stays uncompleted and subscribed). Otherwise the guard is completed,
  its resetLoader is no longer bound to the route event, and the success callback
  runs if the call is not canceled and the fragment is unchanged, else the failback
  if there is one; either is passed the arguments of the trigger or of the route
  event and nothing more. The finalizer adds no \<open>isError\<close> flag: loadData binds
  \<open>false\<close> into the failback it gives bindToRoute, and \<open>true\<close> into the \<open>error\<close>
  option it gives the transport, which does not pass through the finalizer.
\<close>

theorem finalizer_dispatch:
  assumes "\<not> completed w g"
  shows "(let w' = invoke (BindFinalizer g c frag cb fb) args w;
              w1 = w\<lparr>completed := (completed w)(g := True),
                      routeBound := removeAll (resetLoader g frag cb fb) (routeBound w)\<rparr>
          in (c \<and> frag = getFragment w \<longrightarrow> w' = w) \<and>
             (\<not> (c \<and> frag = getFragment w) \<longrightarrow>
                completed w' g \<and> resetLoader g frag cb fb \<notin> set (routeBound w') \<and>
                w' = (if \<not> c \<and> frag = getFragment w then invoke cb args w1
                      else case fb of Some f \<Rightarrow> invoke f args w1 | None \<Rightarrow> w1)) \<and>
             (\<forall>f. fb = Some (BindFailback f False) \<and> frag \<noteq> getFragment w \<longrightarrow>
                w' = invoke f (Bool False # args) w1)) \<and>
         (\<forall>f. invoke (BindFailback f True) args w = invoke f (Bool True # args) w) \<and>
         (\<forall>callback failback opts. \<not> isPopulated w \<longrightarrow>
            success (objects (loadData callback failback opts w) (nextObject w)) =
              Some (BindFinalizer (nextGuard w) False (getFragment w) callback
                     (Some (BindFailback failback False))) \<and>
            error (objects (loadData callback failback opts w) (nextObject w)) =
              Some (BindFailback failback True))"
proof -
  let ?w1 = "w\<lparr>completed := (completed w)(g := True),
                 routeBound := removeAll (resetLoader g frag cb fb) (routeBound w)\<rparr>"
  have c1: "completed ?w1 g" by simp
  have r1: "resetLoader g frag cb fb \<notin> set (routeBound ?w1)" by simp
  have m: "\<And>f a. completed (invoke f a ?w1) g \<and>
                  resetLoader g frag cb fb \<notin> set (routeBound (invoke f a ?w1))"
    using invoke_completed_mono[OF c1] invoke_routeBound_subset r1 by blast
  have guard: "(let w' = invoke (BindFinalizer g c frag cb fb) args w; w1 = ?w1
          in (c \<and> frag = getFragment w \<longrightarrow> w' = w) \<and>
             (\<not> (c \<and> frag = getFragment w) \<longrightarrow>
                completed w' g \<and> resetLoader g frag cb fb \<notin> set (routeBound w') \<and>
                w' = (if \<not> c \<and> frag = getFragment w then invoke cb args w1
                      else case fb of Some f \<Rightarrow> invoke f args w1 | None \<Rightarrow> w1)) \<and>
             (\<forall>f. fb = Some (BindFailback f False) \<and> frag \<noteq> getFragment w \<longrightarrow>
                w' = invoke f (Bool False # args) w1))"
    using assms m c1 r1
    by (auto simp: Let_def resetLoader_def split: option.splits)
  show ?thesis
    using guard loadData_wiring by simp
qed

theorem finalizer_dispatch_witness:
  "\<not> completed world0 0 \<and>
   trace (invoke (BindFinalizer 0 False ''home'' (User 1) (Some (BindFailback (User 2) False)))
            [Val 7] world0) = [Called 1 [Val 7]] \<and>
   invoke (BindFailback (User 2) True) [Val 7] world0 = emit [Called 2 [Bool True, Val 7]] world0"
proof -
  have h: "\<not> completed world0 0" by (simp add: world0_def)
  show ?thesis
    using h finalizer_dispatch [OF h, of False "''home''" "User 1"
            "Some (BindFailback (User 2) False)" "[Val 7]"]
    by (simp add: world0_def emit_def Let_def)
qed

text \<open>
  Claim C4 as stated fails: a guard made by bindToRoute itself, the fragment changed,
  then the trigger called with one argument. The failback runs with that argument
  first, which is truthy where the claim has \<open>isError = false\<close>; cancelled by a
  route event without arguments, the failback gets no argument at all.
\<close>

theorem finalizer_isError_counterexample:
  "trace (fold (guardStep (fst (bindToRoute (User 1) (Some (User 2)) world0)))
           [Navigate ''other'', Trigger [Val 7]]
           (snd (bindToRoute (User 1) (Some (User 2)) world0))) = [Called 2 [Val 7]] \<and>
   truthy [Val 7] \<and>
   trace (fold (guardStep (fst (bindToRoute (User 1) (Some (User 2)) world0)))
           [Navigate ''other'', Route []]
           (snd (bindToRoute (User 1) (Some (User 2)) world0))) = [Called 2 []]"
  by code_simp

text \<open>
  Claim C7. After bindToRoute, under any sequence of trigger calls, route events and
  fragment changes, at most one call of the success callback or the failback is
  made in all; once the trigger has been called the guard is completed, and exactly
  one call has been made when a failback was given.
\<close>

theorem finalizer_runs_once:
  assumes "routeBound w0 = []"
      and "bindToRoute (User a) (map_option User b) w0 = (t, w1)"
  shows "\<exists>new. trace (fold (guardStep t) steps w1) = trace w0 @ new \<and> length new \<le> 1 \<and>
           ((\<exists>args. Trigger args \<in> set steps) \<longrightarrow>
               completed (fold (guardStep t) steps w1) (nextGuard w0) \<and>
               (b \<noteq> None \<longrightarrow> length new = 1)) \<and>
           (\<forall>e \<in> set new. \<exists>args. e = Called a args \<or> (\<exists>k. b = Some k \<and> e = Called k args))"
proof -
  let ?g = "nextGuard w0" and ?frag = "getFragment w0"
  let ?t = "BindFinalizer ?g False ?frag (User a) (map_option User b)"
  let ?r = "BindFinalizer ?g True ?frag (User a) (map_option User b)"
  from assms(2) have t: "t = ?t"
    and w1: "w1 = w0\<lparr>nextGuard := Suc ?g, completed := (completed w0)(?g := False),
                      routeBound := routeBound w0 @ [?r]\<rparr>"
    by (auto simp: bindToRoute_def Let_def resetLoader_def)
  have "ginv a ?g ?r b (trace w0) w1"
    using assms(1) by (simp add: ginv_def w1)
  from ginv_fold[OF this, of steps]
  have inv: "ginv a ?g ?r b (trace w0) (fold (guardStep ?t) steps w1)" .
  have tc: "(\<exists>args. Trigger args \<in> set steps) \<Longrightarrow> completed (fold (guardStep ?t) steps w1) ?g"
    using trigger_in_steps_completes by blast
  show ?thesis
  proof (cases "completed (fold (guardStep ?t) steps w1) ?g")
    case True
    with inv show ?thesis unfolding ginv_def t by auto
  next
    case False
    with inv tc show ?thesis unfolding ginv_def t by auto
  qed
qed

theorem finalizer_runs_once_witness:
  "routeBound world0 = [] \<and>
   trace (fold (guardStep (fst (bindToRoute (User 1) (Some (User 2)) world0)))
           [Trigger [Val 3], Navigate ''other'', Route [], Trigger [Val 4]]
           (snd (bindToRoute (User 1) (Some (User 2)) world0))) = [Called 1 [Val 3]]"
proof -
  have h1: "routeBound world0 = []" by (simp add: world0_def)
  have h2: "bindToRoute (User 1) (map_option User (Some 2)) world0 =
              (fst (bindToRoute (User 1) (Some (User 2)) world0),
               snd (bindToRoute (User 1) (Some (User 2)) world0))" by simp
  show ?thesis
    using h1 finalizer_runs_once [OF h1 h2,
            of "[Trigger [Val 3], Navigate ''other'', Route [], Trigger [Val 4]]"]
    by (simp add: world0_def bindToRoute_def resetLoader_def Let_def emit_def routeEvent_def)
qed

subsection \<open>Cancelling the request\<close>

text \<open>
  Claim C8. The failure function that load wires in (\<open>LoadFailback\<close>, reached with
  \<open>false\<close> through the guard and with \<open>true\<close> through the \<open>error\<close> option): while a
  request is outstanding, a call with \<open>isError = false\<close> sets \<open>_aborted\<close> and calls
  \<open>abort()\<close> on the request before the caller's failback runs; a call with
  \<open>isError = true\<close> calls only the caller's failback.
\<close>

theorem load_cancel_aborts:
  assumes "this_request w = Some h"
  shows "invoke (LoadFailback (map_option User b)) (Bool False # args) w =
           emit (Abort h # userCalls (Bool False # args) (map_option User b)) (w\<lparr>this_aborted := True\<rparr>)
       \<and> invoke (LoadFailback (map_option User b)) (Bool True # args) w =
           emit (userCalls (Bool True # args) (map_option User b)) w
       \<and> (\<forall>g c frag cb. \<not> completed w g \<and> frag \<noteq> getFragment w \<longrightarrow>
            (let w' = invoke (BindFinalizer g c frag cb
                          (Some (BindFailback (LoadFailback (map_option User b)) False))) args w
             in this_aborted w' \<and>
                trace w' = trace w @ Abort h # userCalls (Bool False # args) (map_option User b)))
       \<and> (\<forall>cb rest. \<not> isPopulated w \<longrightarrow>
            success (objects (load cb rest w) (nextObject w)) =
              Some (BindFinalizer (nextGuard w) False (getFragment w) cb
                     (Some (BindFailback (LoadFailback (function_of (nth_arg rest 0))) False))) \<and>
            error (objects (load cb rest w) (nextObject w)) =
              Some (BindFailback (LoadFailback (function_of (nth_arg rest 0))) True))"
  using assms load_wiring
  by (cases b) (auto simp: emit_def Let_def)

theorem load_cancel_aborts_witness:
  "this_request (sync 5 world0) = Some 5 \<and>
   trace (invoke (LoadFailback (Some (User 2))) [Bool False] (sync 5 world0)) =
     [TriggerRequest 5, Abort 5, Called 2 [Bool False]] \<and>
   this_aborted (invoke (LoadFailback (Some (User 2))) [Bool False] (sync 5 world0)) \<and>
   trace (invoke (LoadFailback (Some (User 2))) [Bool True] (sync 5 world0)) =
     [TriggerRequest 5, Called 2 [Bool True]]"
proof -
  have h: "this_request (sync 5 world0) = Some 5" by (simp add: sync_def emit_def)
  show ?thesis
    using h load_cancel_aborts [OF h, of "Some 2" "[]"]
    by (simp add: sync_def world0_def emit_def)
qed

subsection \<open>The fetch queue\<close>

text \<open>
  Claim C2. Two fetch calls with separate options objects, the second while the
  queue of the first is active and without \<open>resetQueue\<close>: each triggers its
  load:start, the inherited fetch is called once, and one queue array holds both
  objects in call order, each with the caller's \<open>success\<close> and \<open>error\<close> and the
  wrapper around the caller's \<open>complete\<close>. A flush of that array calls the handler
  of the first object and then of the second, once each and with the arguments of
  the flush, and then clears \<open>this.fetchQueue\<close> if it still is that array. When the
  callers' callbacks are plain functions this is, for each caller in turn, its
  callback (and for \<open>complete\<close> its load:end), also for a later flush that finds
  the queue already cleared. A flush of plain callbacks clears \<open>this.fetchQueue\<close>
  exactly when it is the array being flushed.
\<close>

theorem fetch_dedup:
  assumes "this_fetchQueue w0 = None" and "r1 \<noteq> r2" and "\<not> resetQueue (objects w0 r2)"
  shows "(let q = nextArray w0;
              w2 = fetch (Some r2) (fetch (Some r1) w0)
          in trace w2 =
               trace w0 @ TriggerLoadStart (backgroundOpt (objects w0 r1))
                  # replicate (forwarders w0) (ForwardLoadStart (backgroundOpt (objects w0 r1)))
                  @ [SuperFetch q, TriggerLoadStart (backgroundOpt (objects w0 r2))] \<and>
             this_fetchQueue w2 = Some q \<and> arrays w2 q = [r1, r2] \<and>
             (\<forall>h. field h (objects w2 r1) = queued h (objects w0 r1) \<and>
                  field h (objects w2 r2) = queued h (objects w0 r2)) \<and>
             (\<forall>h args. flushQueue q h args w2 =
                (let w' = callHandler h args r2 (callHandler h args r1 w2)
                 in if this_fetchQueue w' = Some q then w'\<lparr>this_fetchQueue := None\<rparr> else w')) \<and>
             (isUserOptions (objects w0 r1) \<and> isUserOptions (objects w0 r2) \<longrightarrow>
                (\<forall>h args h' args'.
                   (let w3 = flushQueue q h args w2;
                        w4 = flushQueue q h' args' w3
                    in trace w3 = trace w2 @ callerEvents h args (objects w0 r1)
                                           @ callerEvents h args (objects w0 r2) \<and>
                       this_fetchQueue w3 = None \<and>
                       trace w4 = trace w3 @ callerEvents h' args' (objects w0 r1)
                                           @ callerEvents h' args' (objects w0 r2))))) \<and>
         (\<forall>w q h args. (\<forall>r \<in> set (arrays w q). plainOpt (field h (objects w r))) \<longrightarrow>
            this_fetchQueue (flushQueue q h args w) =
              (if this_fetchQueue w = Some q then None else this_fetchQueue w))"
proof -
  let ?q = "nextArray w0"
  let ?w2 = "fetch (Some r2) (fetch (Some r1) w0)"
  note p = fetch_pair[OF assms]
  have gen: "flushQueue ?q h args ?w2 =
                (let w' = callHandler h args r2 (callHandler h args r1 ?w2)
                 in if this_fetchQueue w' = Some ?q then w'\<lparr>this_fetchQueue := None\<rparr> else w')"
    for h args
    by (simp add: flushQueue_def p(3))
  have usr: "(let w3 = flushQueue ?q h args ?w2;
                  w4 = flushQueue ?q h' args' w3
              in trace w3 = trace ?w2 @ callerEvents h args (objects w0 r1)
                                      @ callerEvents h args (objects w0 r2) \<and>
                 this_fetchQueue w3 = None \<and>
                 trace w4 = trace w3 @ callerEvents h' args' (objects w0 r1)
                                      @ callerEvents h' args' (objects w0 r2))"
    if u: "isUserOptions (objects w0 r1)" "isUserOptions (objects w0 r2)" for h args h' args'
  proof -
    let ?w3 = "flushQueue ?q h args ?w2"
    have e3: "?w3 = (emit (callerEvents h args (objects w0 r1) @ callerEvents h args (objects w0 r2)) ?w2)
                      \<lparr>this_fetchQueue := None\<rparr>"
      using flush_pair[OF p(3) u p(4) p(5), of h args] p(2) by (simp add: Let_def)
    have a3: "arrays ?w3 ?q = [r1, r2]" by (simp add: e3 emit_def p(3))
    have o3: "objects ?w3 = objects ?w2" by (simp add: e3 emit_def)
    have q3: "this_fetchQueue ?w3 = None" by (simp add: e3)
    have f31: "\<forall>h. field h (objects ?w3 r1) = queued h (objects w0 r1)"
      and f32: "\<forall>h. field h (objects ?w3 r2) = queued h (objects w0 r2)"
      using p(4) p(5) by (simp_all add: o3)
    have t3: "trace ?w3 = trace ?w2 @ callerEvents h args (objects w0 r1)
                                    @ callerEvents h args (objects w0 r2)"
      by (simp add: e3 emit_def)
    have t4: "trace (flushQueue ?q h' args' ?w3) =
                trace ?w3 @ callerEvents h' args' (objects w0 r1)
                          @ callerEvents h' args' (objects w0 r2)"
      using flush_pair[OF a3 u f31 f32, of h' args'] q3 by (simp add: Let_def emit_def)
    from t3 q3 t4 show ?thesis by (simp only: Let_def)
  qed
  from p gen usr flushQueue_clears show ?thesis
    by (simp only: Let_def) blast
qed

theorem fetch_dedup_witness:
  "this_fetchQueue twoCallers = None \<and> (0::nat) \<noteq> 1 \<and> \<not> resetQueue (objects twoCallers 1) \<and>
   isUserOptions (objects twoCallers 0) \<and> isUserOptions (objects twoCallers 1) \<and>
   trace (flushQueue 0 Complete [] (flushQueue 0 Success [Val 9]
            (fetch (Some 1) (fetch (Some 0) twoCallers)))) =
     [TriggerLoadStart False, SuperFetch 0, TriggerLoadStart False,
      Called 0 [Val 9], Called 1 [Val 9], TriggerLoadEnd, TriggerLoadEnd]"
proof -
  have h1: "this_fetchQueue twoCallers = None"
    and h2: "(0::nat) \<noteq> 1"
    and h3: "\<not> resetQueue (objects twoCallers 1)"
    and h4: "isUserOptions (objects twoCallers 0)"
    and h5: "isUserOptions (objects twoCallers 1)"
    by (simp_all add: twoCallers_def world0_def emptyOptions_def isUserOptions_def)
  have e: "trace (flushQueue 0 Complete [] (flushQueue 0 Success [Val 9]
            (fetch (Some 1) (fetch (Some 0) twoCallers)))) =
     [TriggerLoadStart False, SuperFetch 0, TriggerLoadStart False,
      Called 0 [Val 9], Called 1 [Val 9], TriggerLoadEnd, TriggerLoadEnd]"
    by code_simp
  show ?thesis
    using h1 h2 h3 h4 h5 e fetch_dedup [OF h1 h2 h3] by simp
qed

text \<open>
  A fetch made inside a callback of the flush is not in flight with the first: it
  finds the queue still set (it is cleared after the callbacks), so it is pushed
  onto the array being flushed. The flush does not visit it, no call of the
  inherited fetch is made for it and its \<open>success\<close> is not called; the flush of
  \<open>complete\<close> that follows does call its wrapper.
\<close>

lemma fetch_inside_flush:
  "(let w1 = fetch (Some 0) nestedCaller;
        w2 = flushQueue 0 Success [Val 9] w1;
        w3 = flushQueue 0 Complete [] w2
    in trace w1 = [TriggerLoadStart False, SuperFetch 0] \<and>
       trace w2 = trace w1 @ [Called 0 [Val 9], TriggerLoadStart False] \<and>
       arrays w2 0 = [0, 1] \<and> this_fetchQueue w2 = None \<and>
       trace w3 = trace w2 @ [TriggerLoadEnd, TriggerLoadEnd])"
  by code_simp

text \<open>
  Claim C9. The fetch override writes its wrapper into the \<open>complete\<close> property of the
  options object it was given, so a second fetch with the same object wraps the
  first wrapper: an options object \<open>{}\<close> used for two fetches, each run to completion,
  gives one load:end for the first call and two for the second.
\<close>

theorem fetch_shared_options_two_ends:
  "(let w1 = snd (newObject emptyOptions world0);
        w2 = flushQueue 0 Complete [] (fetch (Some 0) w1);
        w3 = flushQueue 1 Complete [] (fetch (Some 0) w2)
    in trace w2 = [TriggerLoadStart False, SuperFetch 0, TriggerLoadEnd] \<and>
       trace w3 = trace w2 @ [TriggerLoadStart False, SuperFetch 1, TriggerLoadEnd, TriggerLoadEnd])"
  by code_simp

section \<open>Properties of the load handler\<close>

lemma timersOK_loadHandler:
  assumes "timersOK v"
  shows "timersOK (loadHandler cfg m bg obj v)"
proof (cases "this_loadStart v")
  case None
  with assms show ?thesis
    by (auto simp: timersOK_def loadHandler_def startLoadTimeout_def setTimeout_def
          clearTimeout_def updSignal_def Let_def)
next
  case (Some c)
  with assms show ?thesis
    by (auto simp: timersOK_def loadHandler_def startLoadTimeout_def setTimeout_def
          clearTimeout_def updSignal_def Let_def)
qed

lemma logOK_loadHandler:
  assumes "logOK v"
  shows "logOK (loadHandler cfg m bg obj v)"
proof (cases "this_loadStart v")
  case None
  have out: "outputs (loadHandler cfg m bg obj v) = outputs v"
    and ns: "nextSignal (loadHandler cfg m bg obj v) = Suc (nextSignal v)"
    and ls: "this_loadStart (loadHandler cfg m bg obj v) = Some (nextSignal v)"
    and rn: "\<not> run (signals (loadHandler cfg m bg obj v) (nextSignal v))"
    using None
    by (simp_all add: loadHandler_def startLoadTimeout_def setTimeout_def
          clearTimeout_def updSignal_def Let_def)
  have fresh: "\<not> list_ex (isEnd (nextSignal v)) (outputs v)"
  proof
    assume "list_ex (isEnd (nextSignal v)) (outputs v)"
    then obtain x where x: "x \<in> set (outputs v)" "isEnd (nextSignal v) x"
      by (auto simp: list_ex_iff)
    from x(2) have "signalOf x = nextSignal v" by (cases x) auto
    with x(1) assms show False by (auto simp: logOK_def)
  qed
  from assms have a: "\<forall>x \<in> set (outputs v). signalOf x < nextSignal v"
    and c: "\<forall>r. length (filter (isEnd r) (outputs v)) \<le> 1"
    and d: "\<forall>xs b r ys. outputs v = xs @ OnEnd b r # ys \<longrightarrow> list_ex (isStart r) xs"
    by (auto simp: logOK_def)
  show ?thesis
    unfolding logOK_def out ns ls
    using a c d fresh rn by (auto simp: less_Suc_eq)
next
  case (Some c)
  have out: "outputs (loadHandler cfg m bg obj v) = outputs v"
    and ns: "nextSignal (loadHandler cfg m bg obj v) = nextSignal v"
    and ls: "this_loadStart (loadHandler cfg m bg obj v) = Some c"
    and rn: "run (signals (loadHandler cfg m bg obj v) c) = run (signals v c)"
    using Some
    by (simp_all add: loadHandler_def startLoadTimeout_def setTimeout_def
          clearTimeout_def updSignal_def Let_def)
  show ?thesis
    unfolding logOK_def out ns ls
    using assms Some rn by (auto simp: logOK_def)
qed

lemma endCallback_frame:
  assumes "endCallback cfg obj v = Inr v'"
  shows "this_loadStart v' = this_loadStart v" and "outputs v' = outputs v"
    and "nextSignal v' = nextSignal v" and "bound v' = bound v"
    and "\<And>r. run (signals v' r) = run (signals v r)"
  using assms
  by (auto simp: endCallback_def setTimeout_def updSignal_def Let_def
           split: option.splits if_splits)

lemma logOK_frame:
  assumes "logOK v" and "this_loadStart v' = this_loadStart v" and "outputs v' = outputs v"
    and "nextSignal v' = nextSignal v" and "\<And>r. run (signals v' r) = run (signals v r)"
  shows "logOK v'"
  using assms by (simp add: logOK_def)

lemma endCallback_ok:
  assumes "timersOK v" and "obj \<in> set (bound v)"
  shows "\<exists>v'. endCallback cfg obj (v\<lparr>bound := remove1 obj (bound v)\<rparr>) = Inr v' \<and> timersOK v'"
proof (cases "this_loadStart v")
  case None
  with assms show ?thesis by (simp add: timersOK_def)
next
  case (Some c)
  from assms Some have b: "bound v = events (signals v c)"
    and ne: "events (signals v c) \<noteq> []"
    by (auto simp: timersOK_def)
  from assms(1) Some ne have st: "\<forall>t \<in> set (timers v). action t = StartAction \<and> tid t = timeout (signals v c)"
    by (auto simp: timersOK_def)
  show ?thesis
    using Some b st
    by (auto simp: endCallback_def setTimeout_def updSignal_def Let_def timersOK_def)
qed

lemma count_list_remove1: "count_list (remove1 x xs) x = count_list xs x - 1"
  by (induction xs) auto

lemma count_list_pos: "0 < count_list xs x \<Longrightarrow> x \<in> set xs"
  by (induction xs) (auto split: if_splits)

lemma triggerLoadEnd_ok:
  assumes "timersOK v" and "logOK v" and "n = count_list (bound v) obj"
  shows "\<exists>v'. triggerLoadEnd cfg obj n v = Inr v' \<and> timersOK v' \<and> logOK v'"
  using assms
proof (induction n arbitrary: v)
  case 0
  then show ?case by simp
next
  case (Suc n)
  from Suc.prems(3) have mem: "obj \<in> set (bound v)"
    using count_list_pos[of "bound v" obj] by simp
  from endCallback_ok[OF Suc.prems(1) mem, of cfg]
  obtain v1 where e: "endCallback cfg obj (v\<lparr>bound := remove1 obj (bound v)\<rparr>) = Inr v1"
    and t1: "timersOK v1" by blast
  note fr = endCallback_frame[OF e]
  have l0: "logOK (v\<lparr>bound := remove1 obj (bound v)\<rparr>)"
    using Suc.prems(2) by (simp add: logOK_def)
  have l1: "logOK v1"
    by (rule logOK_frame[OF l0]) (simp_all add: fr)
  have c1: "n = count_list (bound v1) obj"
    using fr(4) Suc.prems(3) by (simp add: count_list_remove1)
  from Suc.IH[OF t1 l1 c1] e show ?case by simp
qed

lemma snoc_eq_app_OnEnd:
  assumes "outs @ [x] = xs @ OnEnd b r # ys"
  shows "(ys = [] \<and> x = OnEnd b r \<and> xs = outs) \<or> (\<exists>ys'. ys = ys' @ [x] \<and> outs = xs @ OnEnd b r # ys')"
proof (cases ys rule: rev_cases)
  case Nil
  with assms show ?thesis by simp
next
  case (snoc ys' y)
  with assms have "outs @ [x] = (xs @ OnEnd b r # ys') @ [y]" by simp
  then have "outs = xs @ OnEnd b r # ys'" and "x = y" by simp_all
  with snoc show ?thesis by simp
qed

lemma logOK_start:
  assumes "logOK v" and "this_loadStart v = Some c"
  shows "logOK (v\<lparr>signals := (signals v)(c := (signals v c)\<lparr>run := True\<rparr>),
                 outputs := outputs v @ [OnStart m b c]\<rparr>)"
proof -
  from assms have a: "\<forall>x \<in> set (outputs v). signalOf x < nextSignal v"
    and cu: "c < nextSignal v" "\<not> list_ex (isEnd c) (outputs v)"
    and cnt: "\<forall>r. length (filter (isEnd r) (outputs v)) \<le> 1"
    and d: "\<forall>xs b r ys. outputs v = xs @ OnEnd b r # ys \<longrightarrow> list_ex (isStart r) xs"
    by (auto simp: logOK_def)
  have d': "list_ex (isStart r) xs" if "outputs v @ [OnStart m b c] = xs @ OnEnd b' r # ys" for xs b' r ys
    using snoc_eq_app_OnEnd[OF that] d by auto
  show ?thesis
    unfolding logOK_def
    using a cu cnt d' assms(2) by auto
qed

lemma logOK_end:
  assumes "logOK v" and "this_loadStart v = Some c" and "run (signals v c)"
  shows "logOK (v\<lparr>outputs := outputs v @ [OnEnd b c, SignalLoadEnd c], timers := ts,
                 this_loadStart := None\<rparr>)"
proof -
  from assms have a: "\<forall>x \<in> set (outputs v). signalOf x < nextSignal v"
    and cu: "c < nextSignal v" "\<not> list_ex (isEnd c) (outputs v)" "list_ex (isStart c) (outputs v)"
    and cnt: "\<forall>r. length (filter (isEnd r) (outputs v)) \<le> 1"
    and d: "\<forall>xs b r ys. outputs v = xs @ OnEnd b r # ys \<longrightarrow> list_ex (isStart r) xs"
    by (auto simp: logOK_def)
  have f0: "filter (isEnd c) (outputs v) = []"
    using cu(2) by (auto simp: list_ex_iff filter_empty_conv)
  have d': "list_ex (isStart r) xs"
    if "outputs v @ [OnEnd b c, SignalLoadEnd c] = xs @ OnEnd b' r # ys" for xs b' r ys
  proof -
    from that have "(outputs v @ [OnEnd b c]) @ [SignalLoadEnd c] = xs @ OnEnd b' r # ys" by simp
    from snoc_eq_app_OnEnd[OF this]
    obtain ys' where "outputs v @ [OnEnd b c] = xs @ OnEnd b' r # ys'" by auto
    from snoc_eq_app_OnEnd[OF this] d cu(3) show ?thesis by auto
  qed
  have cnt': "length (filter (isEnd r) (outputs v @ [OnEnd b c, SignalLoadEnd c])) \<le> 1" for r
    using cnt f0 by (cases "r = c") auto
  show ?thesis
    unfolding logOK_def
    using a cu(1) cnt' d' by auto
qed

lemma fire_ok:
  assumes "timersOK v" and "logOK v" and "t \<in> set (timers v)"
  shows "\<exists>v'. fire t v = Inr v' \<and> timersOK v' \<and> logOK v'"
proof (cases "this_loadStart v")
  case None
  with assms show ?thesis by (simp add: timersOK_def)
next
  case (Some c)
  let ?v1 = "v\<lparr>timers := filter (\<lambda>u. tid u \<noteq> tid t) (timers v), now := max (now v) (due t)\<rparr>"
  have t1: "timersOK ?v1" using assms(1) Some by (auto simp: timersOK_def)
  have l1: "logOK ?v1" using assms(2) by (simp add: logOK_def)
  have ls1: "this_loadStart ?v1 = Some c" using Some by simp
  from assms(1,3) Some
  consider (start) "action t = StartAction"
    | (finish) "action t = EndAction c" "tid t = endTimeout (signals v c)" "events (signals v c) = []"
    by (auto simp: timersOK_def)
  then show ?thesis
  proof cases
    case start
    have "logOK (?v1\<lparr>signals := (signals ?v1)(c := (signals ?v1 c)\<lparr>run := True\<rparr>),
                 outputs := outputs ?v1 @ [OnStart (message (signals v c)) (background (signals v c)) c]\<rparr>)"
      by (rule logOK_start[OF l1 ls1])
    moreover have "timersOK (?v1\<lparr>signals := (signals ?v1)(c := (signals ?v1 c)\<lparr>run := True\<rparr>),
                 outputs := outputs ?v1 @ [OnStart (message (signals v c)) (background (signals v c)) c]\<rparr>)"
      using t1 Some by (auto simp: timersOK_def)
    ultimately show ?thesis
      using start Some by (simp add: fire_def startAction_def updSignal_def Let_def)
  next
    case finish
    have all: "\<forall>u \<in> set (timers v).
        (action u = StartAction \<and> tid u = timeout (signals v c)) \<or> tid u = tid t"
      using assms(1) Some finish by (auto simp: timersOK_def)
    have emp: "filter (\<lambda>u. tid u \<noteq> timeout (signals v c)) (filter (\<lambda>u. tid u \<noteq> tid t) (timers v)) = []"
      using all by (auto simp: filter_empty_conv)
    have bd: "bound v = []" using assms(1) Some finish by (simp add: timersOK_def)
    show ?thesis
    proof (cases "run (signals v c)")
      case True
      have "logOK (?v1\<lparr>outputs := outputs ?v1 @ [OnEnd (background (signals v c)) c, SignalLoadEnd c],
                        timers := [], this_loadStart := None\<rparr>)"
        by (rule logOK_end[OF l1 ls1]) (simp add: True)
      then show ?thesis
        using finish Some True emp bd
        by (simp add: fire_def endAction_def clearTimeout_def Let_def timersOK_def)
    next
      case False
      have "logOK (?v1\<lparr>timers := [], this_loadStart := None\<rparr>)"
        using l1 by (simp add: logOK_def)
      then show ?thesis
        using finish Some False emp bd
        by (simp add: fire_def endAction_def clearTimeout_def Let_def timersOK_def)
    qed
  qed
qed

lemma runTimers_ok:
  assumes "timersOK v" and "logOK v"
  shows "\<exists>v'. runTimers T v = Inr v' \<and> timersOK v' \<and> logOK v'"
  using assms
proof (induction T v rule: runTimers.induct)
  case (1 T v)
  show ?case
  proof (cases "earliest T (timers v)")
    case None
    have "timersOK (v\<lparr>now := max (now v) T\<rparr>)" using "1.prems"(1)
      by (auto simp: timersOK_def split: option.splits)
    moreover have "logOK (v\<lparr>now := max (now v) T\<rparr>)" using "1.prems"(2)
      by (simp add: logOK_def)
    ultimately show ?thesis using None by simp
  next
    case (Some t)
    from fire_ok[OF "1.prems" earliest_in_set[OF Some]]
    obtain v1 where f: "fire t v = Inr v1" and ok: "timersOK v1" "logOK v1" by blast
    from "1.IH"[OF Some f ok] Some f show ?thesis by simp
  qed
qed

lemma step_ok:
  assumes "timersOK v" and "logOK v"
  shows "\<exists>v'. step cfg i v = Inr v' \<and> timersOK v' \<and> logOK v'"
proof (cases i)
  case (LoadStart m bg obj)
  then show ?thesis
    using timersOK_loadHandler[OF assms(1)] logOK_loadHandler[OF assms(2)] by simp
next
  case (LoadEnd obj)
  then show ?thesis using triggerLoadEnd_ok[OF assms refl] by simp
next
  case (Elapse d)
  then show ?thesis using runTimers_ok[OF assms] by simp
qed

lemma deliver_ok:
  assumes "timersOK v" and "logOK v"
  shows "\<exists>v'. deliver cfg ins v = Inr v' \<and> timersOK v' \<and> logOK v'"
  using assms
proof (induction ins arbitrary: v)
  case Nil
  then show ?case by simp
next
  case (Cons i ins)
  from step_ok[OF Cons.prems, of cfg i]
  obtain v1 where s: "step cfg i v = Inr v1" and ok: "timersOK v1" "logOK v1" by blast
  from Cons.IH[OF ok] s show ?case by simp
qed

lemma view0_ok: "timersOK view0" "logOK view0"
  by (simp_all add: view0_def timersOK_def logOK_def)

lemma triggerLoadEnd_none:
  "obj \<notin> set (bound v) \<Longrightarrow> step cfg (LoadEnd obj) v = Inr v"
  by (simp add: count_list_0_iff)

lemma endAction_absorbs:
  assumes "this_loadStart v = Some c" and "\<not> run (signals v c)" and "events (signals v c) = []"
  shows "\<exists>v'. endAction c v = Inr v' \<and> outputs v' = outputs v \<and> this_loadStart v' = None"
  using assms by (simp add: endAction_def clearTimeout_def Let_def)

subsection \<open>Start and end callbacks\<close>

text \<open>
  Claim C1. Whatever load:start and load:end events and delays reach the object, no
  TypeError is raised, no signal (episode) gets more than one \<open>end\<close> call, and every
  \<open>end\<close> call comes after a \<open>start\<close> call for the same signal. When the end timer
  finds a signal that never ran, the signal is discarded and nothing is called; a
  load:end on an object with no endCallback bound changes nothing.
\<close>

theorem onEnd_once_after_onStart:
  "\<exists>v. deliver cfg ins view0 = Inr v \<and>
       (\<forall>r. length (filter (isEnd r) (outputs v)) \<le> 1) \<and>
       (\<forall>xs b r ys. outputs v = xs @ OnEnd b r # ys \<longrightarrow> list_ex (isStart r) xs) \<and>
       (\<forall>c. this_loadStart v = Some c \<and> \<not> run (signals v c) \<and> events (signals v c) = [] \<longrightarrow>
            (\<exists>v'. endAction c v = Inr v' \<and> outputs v' = outputs v \<and> this_loadStart v' = None)) \<and>
       (\<forall>obj. obj \<notin> set (bound v) \<longrightarrow> step cfg (LoadEnd obj) v = Inr v)"
proof -
  from deliver_ok[OF view0_ok, of cfg ins]
  obtain v where d: "deliver cfg ins view0 = Inr v" and l: "logOK v" by blast
  from l have "\<forall>r. length (filter (isEnd r) (outputs v)) \<le> 1"
    and "\<forall>xs b r ys. outputs v = xs @ OnEnd b r # ys \<longrightarrow> list_ex (isStart r) xs"
    by (auto simp: logOK_def)
  with d endAction_absorbs triggerLoadEnd_none show ?thesis by blast
qed

theorem onEnd_once_after_onStart_witness:
  "outputsOf (deliver defaults [LoadStart None False 7, Elapse 400, LoadEnd 7, LoadEnd 7, Elapse 100]
      view0) = Some [OnStart None False 0, OnEnd False 0, SignalLoadEnd 0] \<and>
   outputsOf (deliver defaults [LoadEnd 7, LoadStart None False 7, LoadEnd 7, Elapse 1000] view0) = Some []"
proof -
  have e1: "outputsOf (deliver defaults [LoadStart None False 7, Elapse 400, LoadEnd 7, LoadEnd 7, Elapse 100]
      view0) = Some [OnStart None False 0, OnEnd False 0, SignalLoadEnd 0]"
    by code_simp
  have e2: "outputsOf (deliver defaults [LoadEnd 7, LoadStart None False 7, LoadEnd 7, Elapse 1000] view0) = Some []"
    by code_simp
  show ?thesis
    using e1 e2
      onEnd_once_after_onStart [of defaults "[LoadStart None False 7, Elapse 400, LoadEnd 7, LoadEnd 7, Elapse 100]"]
    by simp
qed

text \<open>
  Claim C6. A load:start while a signal exists. If the call is not background and
  the signal is, the signal becomes non-background and the start timer is set anew:
  the timers of the old \<open>timeout\<close> and \<open>endTimeout\<close> handles are gone and a new start
  timer, whose handle the signal now holds, is pending. If the signal is not
  background, the only changes are the message, the cleared end timer, the pushed
  object and its bound endCallback: the start timer is not touched.
\<close>

theorem existing_signal_start:
  assumes "this_loadStart v = Some c"
  shows "(\<not> bg \<and> background (signals v c) \<longrightarrow>
            (let v' = loadHandler cfg m bg obj v
             in \<not> background (signals v' c) \<and>
                timeout (signals v' c) = nextTimer v \<and>
                timers v' =
                  filter (\<lambda>t. tid t \<noteq> timeout (signals v c))
                    (filter (\<lambda>t. tid t \<noteq> endTimeout (signals v c)) (timers v)) @
                  [\<lparr>tid = nextTimer v, due = now v + nanDelay cfg, action = StartAction\<rparr>] \<and>
                message (signals v' c) = m \<and>
                events (signals v' c) = events (signals v c) @ [obj])) \<and>
         (\<not> background (signals v c) \<longrightarrow>
            loadHandler cfg m bg obj v =
              v\<lparr>timers := filter (\<lambda>t. tid t \<noteq> endTimeout (signals v c)) (timers v),
                signals := (signals v)(c := (signals v c)\<lparr>message := m,
                               events := events (signals v c) @ [obj]\<rparr>),
                bound := bound v @ [obj]\<rparr>)"
  using assms
  by (auto simp: loadHandler_def startLoadTimeout_def setTimeout_def clearTimeout_def
        updSignal_def Let_def)

theorem existing_signal_start_witness:
  "this_loadStart (loadHandler defaults None True 1 view0) = Some 0 \<and>
   background (signals (loadHandler defaults None True 1 view0) 0) \<and>
   \<not> background (signals (loadHandler defaults None False 2
                             (loadHandler defaults None True 1 view0)) 0) \<and>
   timers (loadHandler defaults None False 2 (loadHandler defaults None True 1 view0)) =
     [\<lparr>tid = 2, due = 0, action = StartAction\<rparr>]"
proof -
  let ?v = "loadHandler defaults None True 1 view0"
  have h: "this_loadStart ?v = Some 0"
    by (simp add: loadHandler_def startLoadTimeout_def setTimeout_def clearTimeout_def
          updSignal_def Let_def view0_def)
  have b: "background (signals ?v 0)" "timeout (signals ?v 0) = 1" "endTimeout (signals ?v 0) = 0"
    "timers ?v = [\<lparr>tid = 1, due = 330, action = StartAction\<rparr>]" "nextTimer ?v = 2" "now ?v = 0"
    by (simp_all add: loadHandler_def startLoadTimeout_def setTimeout_def clearTimeout_def
          updSignal_def Let_def view0_def defaults_def)
  show ?thesis
    using h b existing_signal_start [OF h, of False defaults None 2]
    by (simp add: Let_def defaults_def)
qed

lemma triggerLoadEnd_frame:
  "triggerLoadEnd cfg obj n v = Inr v' \<Longrightarrow>
     this_loadStart v' = this_loadStart v \<and> outputs v' = outputs v"
proof (induction n arbitrary: v)
  case 0
  then show ?case by simp
next
  case (Suc n)
  from Suc.prems obtain v1 where
    e: "endCallback cfg obj (v\<lparr>bound := remove1 obj (bound v)\<rparr>) = Inr v1"
    and t: "triggerLoadEnd cfg obj n v1 = Inr v'"
    by (auto split: sum.splits)
  from endCallback_frame(1,2)[OF e] Suc.IH[OF t] show ?case by simp
qed

lemma pending_starts:
  assumes "timersOK v" and "this_loadStart v = Some c" and "events (signals v c) \<noteq> []"
  shows "\<forall>t \<in> set (timers v). action t = StartAction"
  using assms by (auto simp: timersOK_def)

lemma fire_start_open:
  assumes "this_loadStart v = Some c" and "action t = StartAction"
  shows "\<exists>v' m b. fire t v = Inr v' \<and> this_loadStart v' = Some c \<and>
           events (signals v' c) = events (signals v c) \<and>
           outputs v' = outputs v @ [OnStart m b c]"
  using assms by (simp add: fire_def startAction_def updSignal_def Let_def)

lemma runTimers_open:
  assumes "timersOK v" and "logOK v" and "this_loadStart v = Some c"
    and "events (signals v c) \<noteq> []"
  shows "\<exists>v' new. runTimers T v = Inr v' \<and> this_loadStart v' = Some c \<and>
           outputs v' = outputs v @ new \<and> (\<forall>x \<in> set new. \<exists>m b. x = OnStart m b c)"
  using assms
proof (induction T v rule: runTimers.induct)
  case (1 T v)
  show ?case
  proof (cases "earliest T (timers v)")
    case None
    then show ?thesis using "1.prems"(3) by simp
  next
    case (Some t)
    have tin: "t \<in> set (timers v)" by (rule earliest_in_set[OF Some])
    with pending_starts[OF "1.prems"(1,3,4)] have st: "action t = StartAction" by blast
    from fire_start_open[OF "1.prems"(3) st]
    obtain v1 m b where f: "fire t v = Inr v1" and ls: "this_loadStart v1 = Some c"
      and ev: "events (signals v1 c) = events (signals v c)"
      and out: "outputs v1 = outputs v @ [OnStart m b c]" by blast
    from fire_ok[OF "1.prems"(1,2) tin] f have ok: "timersOK v1" "logOK v1" by auto
    from "1.IH"[OF Some f ok ls] ev "1.prems"(4)
    obtain v' new where r: "runTimers T v1 = Inr v'" and ls': "this_loadStart v' = Some c"
      and out': "outputs v' = outputs v1 @ new" and nw: "\<forall>x \<in> set new. \<exists>m b. x = OnStart m b c"
      by auto
    have "runTimers T v = Inr v'" using Some f r by simp
    moreover have "outputs v' = outputs v @ (OnStart m b c # new)" using out out' by simp
    moreover have "\<forall>x \<in> set (OnStart m b c # new). \<exists>m b. x = OnStart m b c" using nw by simp
    ultimately show ?thesis using ls' by blast
  qed
qed

lemma loadHandler_joins:
  assumes "timersOK v" and "this_loadStart v = Some c"
  shows "this_loadStart (loadHandler cfg m bg obj v) = Some c"
    and "events (signals (loadHandler cfg m bg obj v) c) = events (signals v c) @ [obj]"
    and "outputs (loadHandler cfg m bg obj v) = outputs v"
    and "\<forall>t \<in> set (timers (loadHandler cfg m bg obj v)). action t = StartAction"
proof -
  show a: "this_loadStart (loadHandler cfg m bg obj v) = Some c"
    and b: "events (signals (loadHandler cfg m bg obj v) c) = events (signals v c) @ [obj]"
    and "outputs (loadHandler cfg m bg obj v) = outputs v"
    using assms(2)
    by (simp_all add: loadHandler_def startLoadTimeout_def setTimeout_def clearTimeout_def
          updSignal_def Let_def)
  from b have ne: "events (signals (loadHandler cfg m bg obj v) c) \<noteq> []" by simp
  show "\<forall>t \<in> set (timers (loadHandler cfg m bg obj v)). action t = StartAction"
    by (rule pending_starts[OF timersOK_loadHandler[OF assms(1)] a ne])
qed

text \<open>
  Claim C5. In a state the object can reach, with a signal: the objects still to end
  are exactly those with an endCallback bound. While there is one, no input closes
  the episode: the signal stays and the only calls made are \<open>start\<close> calls. A
  load:start joins the episode, and after it no end timer is pending, so the
  episode stays open until the new object ends too; an end timer that finds
  \<open>events\<close> non-empty does nothing.
\<close>

theorem episode_open_while_pending:
  assumes "deliver cfg ins view0 = Inr v" and "this_loadStart v = Some c"
  shows "bound v = events (signals v c) \<and>
         (events (signals v c) \<noteq> [] \<longrightarrow>
            (\<forall>i. \<exists>v' new. step cfg i v = Inr v' \<and> this_loadStart v' = Some c \<and>
                    outputs v' = outputs v @ new \<and>
                    (\<forall>x \<in> set new. \<exists>m b. x = OnStart m b c))) \<and>
         (\<forall>m bg obj.
            (let v' = loadHandler cfg m bg obj v
             in this_loadStart v' = Some c \<and>
                events (signals v' c) = events (signals v c) @ [obj] \<and>
                (\<forall>t \<in> set (timers v'). action t = StartAction) \<and>
                outputs v' = outputs v)) \<and>
         (\<forall>r. events (signals v r) \<noteq> [] \<longrightarrow> endAction r v = Inr v)"
proof -
  from deliver_ok[OF view0_ok, of cfg ins] assms(1)
  have ok: "timersOK v" "logOK v" by auto
  have p1: "bound v = events (signals v c)"
    using ok(1) assms(2) by (simp add: timersOK_def)
  have p2: "\<exists>v' new. step cfg i v = Inr v' \<and> this_loadStart v' = Some c \<and>
                    outputs v' = outputs v @ new \<and>
                    (\<forall>x \<in> set new. \<exists>m b. x = OnStart m b c)"
    if ne: "events (signals v c) \<noteq> []" for i
  proof (cases i)
    case (LoadStart m bg obj)
    from loadHandler_joins(1,3)[OF ok(1) assms(2), of cfg m bg obj] LoadStart
    have "step cfg i v = Inr (loadHandler cfg m bg obj v) \<and>
          this_loadStart (loadHandler cfg m bg obj v) = Some c \<and>
          outputs (loadHandler cfg m bg obj v) = outputs v @ [] \<and>
          (\<forall>x \<in> set []. \<exists>m b. x = OnStart m b c)" by simp
    then show ?thesis by blast
  next
    case (LoadEnd obj)
    from triggerLoadEnd_ok[OF ok refl, of cfg obj]
    obtain v' where t: "triggerLoadEnd cfg obj (count_list (bound v) obj) v = Inr v'" by blast
    from triggerLoadEnd_frame[OF t] assms(2) t LoadEnd
    have "step cfg i v = Inr v' \<and> this_loadStart v' = Some c \<and>
          outputs v' = outputs v @ [] \<and> (\<forall>x \<in> set []. \<exists>m b. x = OnStart m b c)" by simp
    then show ?thesis by blast
  next
    case (Elapse d)
    from runTimers_open[OF ok assms(2) ne, of "now v + d"] Elapse show ?thesis by simp
  qed
  have p3: "let v' = loadHandler cfg m bg obj v
             in this_loadStart v' = Some c \<and>
                events (signals v' c) = events (signals v c) @ [obj] \<and>
                (\<forall>t \<in> set (timers v'). action t = StartAction) \<and>
                outputs v' = outputs v" for m bg obj
    using loadHandler_joins[OF ok(1) assms(2), of cfg m bg obj] by (simp add: Let_def)
  have p4: "endAction r v = Inr v" if "events (signals v r) \<noteq> []" for r
    using that by (simp add: endAction_def)
  from p1 p2 p3 p4 show ?thesis by blast
qed

theorem episode_open_while_pending_witness:
  "this_loadStart (projr (deliver defaults
       [LoadStart None False 1, LoadStart None False 2, LoadEnd 1, Elapse 1000] view0)) = Some 0 \<and>
   bound (projr (deliver defaults
       [LoadStart None False 1, LoadStart None False 2, LoadEnd 1, Elapse 1000] view0)) = [2] \<and>
   events (signals (projr (deliver defaults
       [LoadStart None False 1, LoadStart None False 2, LoadEnd 1, Elapse 1000] view0)) 0) = [2]"
proof -
  let ?ins = "[LoadStart None False 1, LoadStart None False 2, LoadEnd 1, Elapse 1000]"
  let ?v = "projr (deliver defaults ?ins view0)"
  from deliver_ok[OF view0_ok, of defaults ?ins]
  obtain v' where "deliver defaults ?ins view0 = Inr v'" by blast
  then have h1: "deliver defaults ?ins view0 = Inr ?v" by simp
  have h2: "this_loadStart ?v = Some 0" by code_simp
  have h3: "events (signals ?v 0) = [2]" by code_simp
  show ?thesis
    using h2 h3 episode_open_while_pending [OF h1 h2] by simp
qed











end
